theory Spec2Isabelle
  imports Main "HOL-Library.AList"
begin

section \<open>Data model of main.go\<close>

text \<open>
  Go's \<open>int\<close> is a 64-bit two's complement integer on the platforms the README builds for.
  Offsets and messages are modelled as \<open>int\<close>; comparisons on in-range values agree with
  Go's. The one arithmetic operation of the program is \<open>offset++\<close> in the send handler,
  and its wrap-around is written out by \<open>wrap64\<close>.
\<close>

definition wrap64 :: "int \<Rightarrow> int" where
  "wrap64 x = (x + 2 ^ 63) mod 2 ^ 64 - 2 ^ 63"

text \<open>
  A Go map is modelled as an association list: \<open>map_of\<close> reads a key, \<open>AList.update\<close>
  writes one (overwriting in place, appending a new key), and a \<open>range\<close> loop visits the
  pairs in list order. Go fixes no iteration order, so a statement proved for every list
  holds for every order a \<open>range\<close> loop may take. A Go map holds each key once: \<open>wf_logs\<close>
  states this for the per-key logs, the only maps the handlers iterate.
\<close>

type_synonym ('k, 'v) gomap = "('k \<times> 'v) list"

text \<open>The local struct \<open>logs\<close> of \<open>main\<close> (the mutex is discussed with the handlers).\<close>

record logs =
  offsets :: "(string, int) gomap"
  msgs :: "(string, (int, int) gomap) gomap"

text \<open>The two variables \<open>committed\<close> and \<open>uncommitted\<close> the handler closures share.\<close>

record store =
  uncommitted :: logs
  committed :: logs

definition init :: store where
  "init = \<lparr>uncommitted = \<lparr>offsets = [], msgs = []\<rparr>,
           committed = \<lparr>offsets = [], msgs = []\<rparr>\<rparr>"

definition wf_logs :: "logs \<Rightarrow> bool" where
  "wf_logs l = list_all (\<lambda>kv. distinct (map fst (snd kv))) (msgs l)"

text \<open>
  Reading a Go map at a missing key gives the zero value of the element type:
  \<open>0\<close> for \<open>map[string]int\<close>, the nil map (which reads as empty) for
  \<open>map[string]map[int]int\<close>, the nil slice for \<open>map[string][][]int\<close>.
\<close>

definition offsets_at :: "(string, int) gomap \<Rightarrow> string \<Rightarrow> int" where
  "offsets_at m key = (case map_of m key of Some v \<Rightarrow> v | None \<Rightarrow> 0)"

definition msgs_at :: "(string, ('a \<times> 'b) list) gomap \<Rightarrow> string \<Rightarrow> ('a \<times> 'b) list" where
  "msgs_at m key = (case map_of m key of Some v \<Rightarrow> v | None \<Rightarrow> [])"

text \<open>The idiom \<open>if _, ok := m[key]; !ok { m[key] = v }\<close> of the handlers.\<close>

definition ensure_key :: "'k \<Rightarrow> 'v \<Rightarrow> ('k, 'v) gomap \<Rightarrow> ('k, 'v) gomap" where
  "ensure_key key v m = (if map_of m key = None then AList.update key v m else m)"

text \<open>
  The request and reply bodies. The \<open>Type\<close> field is the constant routing tag of each
  message kind and is left out; \<open>[]int{offset, msg}\<close> is a pair.
\<close>

datatype SendBody = SendBody string int
datatype PollBody = PollBody "(string, int) gomap"
datatype CommitOffsetsBody = CommitOffsetsBody "(string, int) gomap"
datatype ListCommittedOffsetsBody = ListCommittedOffsetsBody "string list"

datatype reply_body =
    SendOkBody int
  | PollOkBody "(string, (int \<times> int) list) gomap"
  | CommitOffsetsOkBody
  | ListCommittedOffsetsOkBody "(string, int) gomap"

text \<open>
  A handler can fail in two places: \<open>json.Unmarshal\<close> of the request body and
  \<open>node.Reply\<close>. Both belong to the environment, so each handler takes their results
  as arguments: the decoded body or the decoding error, and the error \<open>node.Reply\<close>
  returns (\<open>None\<close> is Go's \<open>nil\<close>).
\<close>

datatype error = UnmarshalError | ReplyError

text \<open>
  What one handler call does: the store it leaves, the body it handed to \<open>node.Reply\<close>
  (if it got that far) and the error it returned.
\<close>

record outcome =
  store_after :: store
  replied :: "reply_body option"
  returned :: "error option"

section \<open>The handlers\<close>

text \<open>
  Every handler holds the lock of each table it touches from before its first access
  until it returns (send: write lock on \<open>uncommitted\<close>; poll: read lock on
  \<open>uncommitted\<close>; commit_offsets: read lock on \<open>uncommitted\<close> and write lock on
  \<open>committed\<close>; list_committed_offsets: read lock on \<open>committed\<close>), so concurrent
  handler calls act on the store as if run one after another. Each handler is
  therefore a function from the store to an outcome.
\<close>

text \<open>The \<open>send\<close> handler (main.go, lines 170 to 206).\<close>

definition send :: "store \<Rightarrow> error + SendBody \<Rightarrow> error option \<Rightarrow> outcome" where
  "send st unmarshal reply =
    (case unmarshal of
       Inl e \<Rightarrow> \<lparr>store_after = st, replied = None, returned = Some e\<rparr>
     | Inr (SendBody key msg) \<Rightarrow>
        (let u = uncommitted st;
             msgs1 = ensure_key key [] (msgs u);
             offsets1 = ensure_key key 0 (offsets u);
             offset = offsets_at offsets1 key;
             msgs2 = AList.update key (AList.update offset msg (msgs_at msgs1 key)) msgs1
         in (case reply of
               Some e \<Rightarrow>
                 \<lparr>store_after = st\<lparr>uncommitted := \<lparr>offsets = offsets1, msgs = msgs2\<rparr>\<rparr>,
                  replied = Some (SendOkBody offset), returned = Some e\<rparr>
             | None \<Rightarrow>
                 \<lparr>store_after = st\<lparr>uncommitted :=
                    \<lparr>offsets = AList.update key (wrap64 (offset + 1)) offsets1,
                     msgs = msgs2\<rparr>\<rparr>,
                  replied = Some (SendOkBody offset), returned = None\<rparr>)))"

text \<open>
  The \<open>poll\<close> handler (lines 208 to 248). \<open>poll_key\<close> is the body of the loop over the
  requested keys; \<open>sort\<close> is \<open>sort.Ints\<close>.
\<close>

definition poll_key ::
  "(string, (int, int) gomap) gomap \<Rightarrow> string \<times> int \<Rightarrow>
   (string, (int \<times> int) list) gomap \<Rightarrow> (string, (int \<times> int) list) gomap" where
  "poll_key umsgs kr out =
    (case kr of (key, requestedOffset) \<Rightarrow>
      (case map_of umsgs key of
         None \<Rightarrow> out
       | Some keyMsgs \<Rightarrow>
          (let offs = sort (filter (\<lambda>offset. offset \<ge> requestedOffset) (map fst keyMsgs))
           in fold (\<lambda>offset out.
                      case map_of keyMsgs offset of
                        Some msg \<Rightarrow> AList.update key (msgs_at out key @ [(offset, msg)]) out
                      | None \<Rightarrow> out) offs out)))"

text \<open>The map \<open>msgs\<close> the handler has built when the loop over the requested keys ends.\<close>

definition poll_msgs :: "store \<Rightarrow> (string, int) gomap \<Rightarrow> (string, (int \<times> int) list) gomap" where
  "poll_msgs st requested = fold (poll_key (msgs (uncommitted st))) requested []"

definition poll :: "store \<Rightarrow> error + PollBody \<Rightarrow> error option \<Rightarrow> outcome" where
  "poll st unmarshal reply =
    (case unmarshal of
       Inl e \<Rightarrow> \<lparr>store_after = st, replied = None, returned = Some e\<rparr>
     | Inr (PollBody requested) \<Rightarrow>
        \<lparr>store_after = st,
         replied = Some (PollOkBody (poll_msgs st requested)),
         returned = reply\<rparr>)"

text \<open>
  The \<open>commit_offsets\<close> handler (lines 250 to 289). \<open>commit_entry\<close> is the body of the
  inner loop over the entries of one uncommitted log, \<open>commit_key\<close> the body of the outer
  loop over the requested keys. In \<open>commit_entry\<close> the guard creates the committed log
  of the key before the write, so the write never meets a nil map.
\<close>

definition commit_entry ::
  "string \<Rightarrow> int \<Rightarrow> int \<times> int \<Rightarrow>
   (string, (int, int) gomap) gomap \<Rightarrow> (string, (int, int) gomap) gomap" where
  "commit_entry key requestedOffset e cmsgs =
    (case e of (offset, uncommittedMsg) \<Rightarrow>
      if offset > requestedOffset then cmsgs
      else (let cmsgs1 = ensure_key key [] cmsgs
            in AList.update key
                 (AList.update offset uncommittedMsg (msgs_at cmsgs1 key)) cmsgs1))"

definition commit_key :: "logs \<Rightarrow> string \<times> int \<Rightarrow> logs \<Rightarrow> logs" where
  "commit_key u kr c =
    (case kr of (key, requestedOffset) \<Rightarrow>
      (case map_of (msgs u) key of
         None \<Rightarrow> c
       | Some uncommittedKeyMsgs \<Rightarrow>
          \<lparr>offsets = AList.update key requestedOffset (offsets c),
           msgs = fold (commit_entry key requestedOffset) uncommittedKeyMsgs (msgs c)\<rparr>))"

definition commit_offsets :: "store \<Rightarrow> error + CommitOffsetsBody \<Rightarrow> error option \<Rightarrow> outcome" where
  "commit_offsets st unmarshal reply =
    (case unmarshal of
       Inl e \<Rightarrow> \<lparr>store_after = st, replied = None, returned = Some e\<rparr>
     | Inr (CommitOffsetsBody requested) \<Rightarrow>
        \<lparr>store_after = st\<lparr>committed :=
           fold (commit_key (uncommitted st)) requested (committed st)\<rparr>,
         replied = Some CommitOffsetsOkBody,
         returned = reply\<rparr>)"

text \<open>
  The \<open>list_committed_offsets\<close> handler (lines 291 to 313); \<open>listed_offsets\<close> is the map
  \<open>offsets\<close> it has built when the loop over the requested keys ends.
\<close>

definition listed_offsets :: "store \<Rightarrow> string list \<Rightarrow> (string, int) gomap" where
  "listed_offsets st keys =
    fold (\<lambda>key out. case map_of (offsets (committed st)) key of
                       Some offset \<Rightarrow> AList.update key offset out
                     | None \<Rightarrow> out) keys []"

definition list_committed_offsets ::
  "store \<Rightarrow> error + ListCommittedOffsetsBody \<Rightarrow> error option \<Rightarrow> outcome" where
  "list_committed_offsets st unmarshal reply =
    (case unmarshal of
       Inl e \<Rightarrow> \<lparr>store_after = st, replied = None, returned = Some e\<rparr>
     | Inr (ListCommittedOffsetsBody keys) \<Rightarrow>
        \<lparr>store_after = st,
         replied = Some (ListCommittedOffsetsOkBody (listed_offsets st keys)),
         returned = reply\<rparr>)"

section \<open>Runs of the node\<close>

text \<open>
  One event is one message delivered to the node: which handler \<open>node.Handle\<close> routes
  it to, what \<open>json.Unmarshal\<close> makes of its body, and what \<open>node.Reply\<close> returns.
\<close>

datatype event =
    SendMsg "error + SendBody" "error option"
  | PollMsg "error + PollBody" "error option"
  | CommitOffsetsMsg "error + CommitOffsetsBody" "error option"
  | ListCommittedOffsetsMsg "error + ListCommittedOffsetsBody" "error option"

fun handle :: "store \<Rightarrow> event \<Rightarrow> outcome" where
  "handle st (SendMsg b r) = send st b r"
| "handle st (PollMsg b r) = poll st b r"
| "handle st (CommitOffsetsMsg b r) = commit_offsets st b r"
| "handle st (ListCommittedOffsetsMsg b r) = list_committed_offsets st b r"

fun exec :: "store \<Rightarrow> event list \<Rightarrow> store" where
  "exec st [] = st"
| "exec st (ev # evs) = exec (store_after (handle st ev)) evs"

text \<open>
  The offsets the acknowledged appends to \<open>key\<close> returned along a run, in the order the
  handler calls completed: an append is acknowledged when its handler returned \<open>nil\<close>,
  and the offset is the one in its \<open>send_ok\<close> body.
\<close>

fun acked_offset :: "string \<Rightarrow> event \<Rightarrow> outcome \<Rightarrow> int list" where
  "acked_offset key (SendMsg (Inr (SendBody k m)) r) out =
    (case (replied out, returned out) of
       (Some (SendOkBody offset), None) \<Rightarrow> if k = key then [offset] else []
     | _ \<Rightarrow> [])"
| "acked_offset key _ out = []"

fun acked_offsets :: "string \<Rightarrow> store \<Rightarrow> event list \<Rightarrow> int list" where
  "acked_offsets key st [] = []"
| "acked_offsets key st (ev # evs) =
    acked_offset key ev (handle st ev) @ acked_offsets key (store_after (handle st ev)) evs"

text \<open>The offsets the commit requests of a run named for \<open>key\<close>.\<close>

fun requested_commits :: "string \<Rightarrow> event list \<Rightarrow> int list" where
  "requested_commits key [] = []"
| "requested_commits key (CommitOffsetsMsg (Inr (CommitOffsetsBody requested)) r # evs) =
    map snd (filter (\<lambda>kr. fst kr = key) requested) @ requested_commits key evs"
| "requested_commits key (_ # evs) = requested_commits key evs"

text \<open>The next offset of a key, as the send handler reads it.\<close>

definition next_offset :: "store \<Rightarrow> string \<Rightarrow> int" where
  "next_offset st key = offsets_at (offsets (uncommitted st)) key"

text \<open>The log of a key in a table, as a map from offsets to messages.\<close>

definition log_of :: "logs \<Rightarrow> string \<Rightarrow> int \<Rightarrow> int option" where
  "log_of l key = map_of (msgs_at (msgs l) key)"

text \<open>
  Whether the reply of the event was delivered, if the event is a send: a run whose
  events all satisfy this has no append left half done.
\<close>

fun reply_delivered :: "event \<Rightarrow> bool" where
  "reply_delivered (SendMsg (Inr b) (Some e)) = False"
| "reply_delivered _ = True"

text \<open>
  The entries stored for a key from a starting offset on: the pairs a poll for
  \<open>{key: start}\<close> is to return.
\<close>

definition stored_from :: "store \<Rightarrow> string \<Rightarrow> int \<Rightarrow> (int \<times> int) set" where
  "stored_from st key start =
    {(offset, msg). log_of (uncommitted st) key offset = Some msg \<and> start \<le> offset}"

text \<open>
  The messages the send requests of a run carried for \<open>key\<close> (acknowledged or not):
  the key was never appended to when this list is empty.
\<close>

fun appended :: "string \<Rightarrow> event list \<Rightarrow> int list" where
  "appended key [] = []"
| "appended key (SendMsg (Inr (SendBody k m)) r # evs) =
    (if k = key then [m] else []) @ appended key evs"
| "appended key (_ # evs) = appended key evs"

section \<open>Auxiliary facts\<close>

subsection \<open>Reading and writing the maps\<close>

lemma map_of_ensure_key:
  "map_of (ensure_key k v m) k' = (if k' = k \<and> map_of m k = None then Some v else map_of m k')"
  by (simp add: ensure_key_def update_conv')

lemma offsets_at_update: "offsets_at (AList.update k v m) k' = (if k' = k then v else offsets_at m k')"
  by (simp add: offsets_at_def update_conv')

lemma msgs_at_update: "msgs_at (AList.update k v m) k' = (if k' = k then v else msgs_at m k')"
  by (simp add: msgs_at_def update_conv')

lemma offsets_at_ensure_key: "offsets_at (ensure_key k 0 m) k' = offsets_at m k'"
  by (simp add: offsets_at_def map_of_ensure_key)

lemma msgs_at_ensure_key: "msgs_at (ensure_key k [] m) k' = msgs_at m k'"
  by (simp add: msgs_at_def map_of_ensure_key)

subsection \<open>What the handlers leave alone\<close>

lemma commit_offsets_uncommitted:
  "uncommitted (store_after (commit_offsets st cb cr)) = uncommitted st"
  by (simp add: commit_offsets_def split: sum.split CommitOffsetsBody.split)

lemma poll_reads_uncommitted:
  "uncommitted st' = uncommitted st \<Longrightarrow>
   replied (poll st' pb pr) = replied (poll st pb pr)
   \<and> returned (poll st' pb pr) = returned (poll st pb pr)"
  by (simp add: poll_def poll_msgs_def split: sum.split PollBody.split)

subsection \<open>The send handler\<close>

lemma send_failed_store:
  "store_after (send st (Inr (SendBody k m)) (Some e)) =
     st\<lparr>uncommitted := \<lparr>
       offsets = ensure_key k 0 (offsets (uncommitted st)),
       msgs = AList.update k (AList.update (next_offset st k) m (msgs_at (msgs (uncommitted st)) k))
                (ensure_key k [] (msgs (uncommitted st)))\<rparr>\<rparr>"
  by (simp add: send_def Let_def next_offset_def offsets_at_ensure_key msgs_at_ensure_key)

lemma send_acked_store:
  "store_after (send st (Inr (SendBody k m)) None) =
     st\<lparr>uncommitted := \<lparr>
       offsets = AList.update k (wrap64 (next_offset st k + 1))
                   (ensure_key k 0 (offsets (uncommitted st))),
       msgs = AList.update k (AList.update (next_offset st k) m (msgs_at (msgs (uncommitted st)) k))
                (ensure_key k [] (msgs (uncommitted st)))\<rparr>\<rparr>"
  by (simp add: send_def Let_def next_offset_def offsets_at_ensure_key msgs_at_ensure_key)

lemma send_replied:
  "replied (send st (Inr (SendBody k m)) reply) = Some (SendOkBody (next_offset st k))"
  by (cases reply) (simp_all add: send_def Let_def next_offset_def offsets_at_ensure_key)

lemma send_returned:
  "returned (send st (Inr (SendBody k m)) reply) = reply"
  by (cases reply) (simp_all add: send_def Let_def)

lemma next_offset_send_failed:
  "next_offset (store_after (send st (Inr (SendBody k m)) (Some e))) k' = next_offset st k'"
  by (simp add: send_failed_store next_offset_def offsets_at_ensure_key)

lemma next_offset_send_acked:
  "next_offset (store_after (send st (Inr (SendBody k m)) None)) k' =
     (if k' = k then wrap64 (next_offset st k + 1) else next_offset st k')"
  by (simp add: send_acked_store next_offset_def offsets_at_update offsets_at_ensure_key)

lemma log_of_send:
  "log_of (uncommitted (store_after (send st (Inr (SendBody k m)) reply))) k' =
     (if k' = k then (log_of (uncommitted st) k)(next_offset st k \<mapsto> m)
      else log_of (uncommitted st) k')"
  by (cases reply)
     (simp_all add: send_acked_store send_failed_store log_of_def msgs_at_update
        msgs_at_ensure_key update_conv')

subsection \<open>The list_committed_offsets handler\<close>

lemma map_of_fold_listed:
  "map_of (fold (\<lambda>key out. case map_of offs key of
                               Some offset \<Rightarrow> AList.update key offset out
                             | None \<Rightarrow> out) keys out) k =
     (if k \<in> set keys \<and> map_of offs k \<noteq> None then map_of offs k else map_of out k)"
  by (induction keys arbitrary: out) (auto simp: update_conv' split: option.splits)

lemma map_of_listed_offsets:
  "map_of (listed_offsets st keys) k =
     (if k \<in> set keys then map_of (offsets (committed st)) k else None)"
  by (simp add: listed_offsets_def map_of_fold_listed)

lemma listed_offsets_single:
  "listed_offsets st [k] =
     (case map_of (offsets (committed st)) k of Some offset \<Rightarrow> [(k, offset)] | None \<Rightarrow> [])"
  by (simp add: listed_offsets_def split: option.split)

lemma list_committed_offsets_replied:
  "replied (list_committed_offsets st (Inr (ListCommittedOffsetsBody keys)) reply) =
     Some (ListCommittedOffsetsOkBody (listed_offsets st keys))"
  by (simp add: list_committed_offsets_def)

lemma list_committed_offsets_returned:
  "returned (list_committed_offsets st (Inr (ListCommittedOffsetsBody keys)) reply) = reply"
  by (simp add: list_committed_offsets_def)

subsection \<open>The poll handler and unknown keys\<close>

lemma poll_replied:
  "replied (poll st (Inr (PollBody requested)) reply) = Some (PollOkBody (poll_msgs st requested))"
  by (simp add: poll_def)

lemma poll_returned:
  "returned (poll st (Inr (PollBody requested)) reply) = reply"
  by (simp add: poll_def)

lemma map_of_fold_append_other:
  "key \<noteq> k \<Longrightarrow>
   map_of (fold (\<lambda>offset out. case map_of keyMsgs offset of
                      Some msg \<Rightarrow> AList.update key (msgs_at out key @ [(offset, msg)]) out
                    | None \<Rightarrow> out) offs out) k = map_of out k"
  by (induction offs arbitrary: out) (auto simp: update_conv' split: option.splits)

lemma map_of_poll_key_other:
  assumes "fst kr \<noteq> k \<or> map_of umsgs k = None"
  shows "map_of (poll_key umsgs kr out) k = map_of out k"
proof (cases kr)
  case (Pair key requestedOffset)
  show ?thesis
  proof (cases "map_of umsgs key")
    case None
    then show ?thesis by (simp add: poll_key_def Pair)
  next
    case (Some keyMsgs)
    with assms Pair have "key \<noteq> k" by auto
    then show ?thesis
      by (simp add: poll_key_def Pair Some map_of_fold_append_other)
  qed
qed

lemma map_of_fold_poll_key_unknown:
  "map_of umsgs k = None \<Longrightarrow> map_of (fold (poll_key umsgs) requested out) k = map_of out k"
  by (induction requested arbitrary: out) (simp_all add: map_of_poll_key_other)

lemma poll_msgs_unknown:
  "map_of (msgs (uncommitted st)) k = None \<Longrightarrow> map_of (poll_msgs st requested) k = None"
  by (simp add: poll_msgs_def map_of_fold_poll_key_unknown)

subsection \<open>The commit_offsets handler\<close>

lemma commit_offsets_replied:
  "replied (commit_offsets st (Inr (CommitOffsetsBody requested)) reply) = Some CommitOffsetsOkBody"
  by (simp add: commit_offsets_def)

lemma commit_offsets_returned:
  "returned (commit_offsets st (Inr (CommitOffsetsBody requested)) reply) = reply"
  by (simp add: commit_offsets_def)

lemma commit_offsets_single:
  "store_after (commit_offsets st (Inr (CommitOffsetsBody [(k, c)])) reply) =
     st\<lparr>committed := commit_key (uncommitted st) (k, c) (committed st)\<rparr>"
  by (simp add: commit_offsets_def)

lemma commit_key_unknown:
  "map_of (msgs u) k = None \<Longrightarrow> commit_key u (k, c) l = l"
  by (simp add: commit_key_def)

lemma commit_key_known:
  "map_of (msgs u) k = Some km \<Longrightarrow>
   commit_key u (k, c) l =
     \<lparr>offsets = AList.update k c (offsets l), msgs = fold (commit_entry k c) km (msgs l)\<rparr>"
  by (simp add: commit_key_def)

lemma log_commit_entry:
  "map_of (msgs_at (commit_entry k c (off, m) cm) k') =
     (if k' = k \<and> off \<le> c then (map_of (msgs_at cm k))(off \<mapsto> m) else map_of (msgs_at cm k'))"
  by (simp add: commit_entry_def Let_def msgs_at_update msgs_at_ensure_key update_conv')

lemma log_fold_commit_entry_other:
  "k' \<noteq> k \<Longrightarrow> map_of (msgs_at (fold (commit_entry k c) km cm) k') = map_of (msgs_at cm k')"
  by (induction km arbitrary: cm) (auto simp: log_commit_entry)

lemma log_fold_commit_entry:
  "distinct (map fst km) \<Longrightarrow>
   map_of (msgs_at (fold (commit_entry k c) km cm) k) off =
     (case map_of km off of
        Some m \<Rightarrow> if off \<le> c then Some m else map_of (msgs_at cm k) off
      | None \<Rightarrow> map_of (msgs_at cm k) off)"
proof (induction km arbitrary: cm)
  case Nil
  then show ?case by simp
next
  case (Cons e km)
  obtain off' m' where e: "e = (off', m')" by (cases e)
  from Cons.prems e have fresh: "map_of km off' = None" and d: "distinct (map fst km)"
    by (auto simp: map_of_eq_None_iff)
  note IH = Cons.IH [OF d]
  show ?case
  proof (cases "off = off'")
    case True
    with e fresh have e': "e = (off, m')" and none: "map_of km off = None" by simp_all
    show ?thesis
      by (simp add: e' none IH log_commit_entry)
  next
    case False
    then have "map_of (msgs_at (commit_entry k c (off', m') cm) k) off = map_of (msgs_at cm k) off"
      by (simp add: log_commit_entry)
    with False show ?thesis
      by (simp add: e IH split: option.split)
  qed
qed

lemma commit_entry_present:
  assumes "off \<le> c \<longrightarrow> map_of (msgs_at cm k) off = Some m"
  shows "commit_entry k c (off, m) cm = cm"
proof (cases "off \<le> c")
  case False
  then show ?thesis by (simp add: commit_entry_def)
next
  case True
  with assms have l: "map_of (msgs_at cm k) off = Some m" by simp
  then obtain al where al: "map_of cm k = Some al"
    by (cases "map_of cm k") (simp_all add: msgs_at_def)
  with l have "map_of al off = Some m" by (simp add: msgs_at_def)
  then have "AList.update off m al = al" by (rule update_triv)
  moreover have "ensure_key k [] cm = cm" using al by (simp add: ensure_key_def)
  moreover have "msgs_at cm k = al" using al by (simp add: msgs_at_def)
  moreover have "AList.update k al cm = cm" using al by (rule update_triv)
  ultimately show ?thesis using True by (simp add: commit_entry_def Let_def)
qed

lemma fold_commit_entry_present:
  "(\<forall>e \<in> set km. fst e \<le> c \<longrightarrow> map_of (msgs_at cm k) (fst e) = Some (snd e)) \<Longrightarrow>
   fold (commit_entry k c) km cm = cm"
proof (induction km)
  case Nil
  then show ?case by simp
next
  case (Cons e km)
  obtain off m where e: "e = (off, m)" by (cases e)
  from Cons.prems e have "commit_entry k c (off, m) cm = cm"
    by (intro commit_entry_present) simp
  with Cons show ?case by (simp add: e)
qed

lemma fold_commit_entry_twice:
  assumes "distinct (map fst km)"
  shows "fold (commit_entry k c) km (fold (commit_entry k c) km cm) = fold (commit_entry k c) km cm"
proof (rule fold_commit_entry_present, intro ballI impI)
  fix e assume e: "e \<in> set km" and le: "fst e \<le> c"
  from assms e have "map_of km (fst e) = Some (snd e)"
    by (cases e) simp
  then show "map_of (msgs_at (fold (commit_entry k c) km cm) k) (fst e) = Some (snd e)"
    using le by (simp add: log_fold_commit_entry [OF assms])
qed

lemma wf_logs_distinct:
  "wf_logs l \<Longrightarrow> map_of (msgs l) k = Some km \<Longrightarrow> distinct (map fst km)"
  by (auto simp: wf_logs_def list_all_iff dest!: map_of_SomeD)

lemma log_of_commit_single:
  assumes "wf_logs (uncommitted st)" and "map_of (msgs (uncommitted st)) k \<noteq> None"
  shows "log_of (committed (store_after (commit_offsets st (Inr (CommitOffsetsBody [(k, c)])) reply))) k off =
     (case log_of (uncommitted st) k off of
        Some m \<Rightarrow> if off \<le> c then Some m else log_of (committed st) k off
      | None \<Rightarrow> log_of (committed st) k off)"
proof -
  from assms(2) obtain km where km: "map_of (msgs (uncommitted st)) k = Some km" by auto
  with assms(1) have d: "distinct (map fst km)" by (rule wf_logs_distinct)
  have "msgs_at (msgs (uncommitted st)) k = km" using km by (simp add: msgs_at_def)
  then show ?thesis
    by (simp add: commit_offsets_single commit_key_known [OF km] log_of_def
        log_fold_commit_entry [OF d] split: option.split)
qed

lemma marker_commit_single:
  "map_of (msgs (uncommitted st)) k \<noteq> None \<Longrightarrow>
   map_of (offsets (committed (store_after
      (commit_offsets st (Inr (CommitOffsetsBody [(k, c)])) reply)))) k' =
     (if k' = k then Some c else map_of (offsets (committed st)) k')"
  by (auto simp: commit_offsets_single commit_key_known update_conv')

subsection \<open>A run used as an example\<close>

lemma wrap64_small: "- (2 ^ 63) \<le> x \<Longrightarrow> x < 2 ^ 63 \<Longrightarrow> wrap64 x = x"
  by (simp add: wrap64_def)

lemma scenario_store:
  "exec init [SendMsg (Inr (SendBody ''k1'' 9)) None, SendMsg (Inr (SendBody ''k1'' 5)) None] =
     \<lparr>uncommitted = \<lparr>offsets = [(''k1'', 2)], msgs = [(''k1'', [(0, 9), (1, 5)])]\<rparr>,
      committed = \<lparr>offsets = [], msgs = []\<rparr>\<rparr>"
  by (simp add: init_def send_acked_store next_offset_def offsets_at_def msgs_at_def
      ensure_key_def wrap64_def)

subsection \<open>The poll handler on a known key\<close>

lemma fold_append_entries:
  "\<forall>offset \<in> set offs. map_of keyMsgs offset \<noteq> None \<Longrightarrow>
   fold (\<lambda>offset out. case map_of keyMsgs offset of
                      Some msg \<Rightarrow> AList.update key (msgs_at out key @ [(offset, msg)]) out
                    | None \<Rightarrow> out) offs out =
     (if offs = [] then out
      else AList.update key
             (msgs_at out key @ map (\<lambda>offset. (offset, the (map_of keyMsgs offset))) offs) out)"
proof (induction offs arbitrary: out)
  case Nil
  then show ?case by simp
next
  case (Cons offset offs)
  then obtain msg where msg: "map_of keyMsgs offset = Some msg" by auto
  from Cons.prems have rest: "\<forall>offset \<in> set offs. map_of keyMsgs offset \<noteq> None" by simp
  show ?case
    by (simp add: msg Cons.IH [OF rest] msgs_at_update)
qed

lemma poll_msgs_single_unknown:
  "map_of (msgs (uncommitted st)) k = None \<Longrightarrow> poll_msgs st [(k, s)] = []"
  by (simp add: poll_msgs_def poll_key_def)

lemma poll_msgs_single_known:
  assumes "map_of (msgs (uncommitted st)) k = Some km"
  shows "poll_msgs st [(k, s)] =
     (if filter (\<lambda>offset. s \<le> offset) (map fst km) = [] then []
      else [(k, map (\<lambda>offset. (offset, the (map_of km offset)))
                  (sort (filter (\<lambda>offset. s \<le> offset) (map fst km))))])"
proof -
  let ?offs = "sort (filter (\<lambda>offset. s \<le> offset) (map fst km))"
  have "\<forall>offset \<in> set ?offs. map_of km offset \<noteq> None"
    by (auto simp: map_of_eq_None_iff)
  note fold_append_entries [OF this, of k "[]"]
  moreover have "?offs = [] \<longleftrightarrow> filter (\<lambda>offset. s \<le> offset) (map fst km) = []"
    by (metis length_sort length_0_conv)
  ultimately show ?thesis
    using assms by (simp add: poll_msgs_def poll_key_def msgs_at_def)
qed

lemma stored_from_known:
  assumes "map_of (msgs (uncommitted st)) k = Some km"
  shows "stored_from st k s = {(offset, msg). map_of km offset = Some msg \<and> s \<le> offset}"
  using assms by (simp add: stored_from_def log_of_def msgs_at_def)

lemma stored_from_unknown:
  "map_of (msgs (uncommitted st)) k = None \<Longrightarrow> stored_from st k s = {}"
  by (simp add: stored_from_def log_of_def msgs_at_def)

lemma set_polled_entries:
  fixes km :: "(int \<times> int) list"
  shows "set (map (\<lambda>offset. (offset, the (map_of km offset)))
          (sort (filter (\<lambda>offset. s \<le> offset) (map fst km))))
   = {(offset, msg). map_of km offset = Some msg \<and> s \<le> offset}"
  (is "?L = ?R")
proof (rule set_eqI)
  fix e :: "int \<times> int"
  obtain offset msg where e: "e = (offset, msg)" by (cases e)
  have "e \<in> ?L \<longleftrightarrow> offset \<in> fst ` set km \<and> s \<le> offset \<and> msg = the (map_of km offset)"
    by (auto simp: e)
  also have "\<dots> \<longleftrightarrow> map_of km offset = Some msg \<and> s \<le> offset"
    by (cases "map_of km offset") (auto simp: map_of_eq_None_iff dest: map_of_SomeD
        intro: rev_image_eqI)
  finally show "e \<in> ?L \<longleftrightarrow> e \<in> ?R" by (simp add: e)
qed

lemma polled_offsets_ascending:
  fixes km :: "(int \<times> int) list"
  shows "distinct (map fst km) \<Longrightarrow>
   sorted_wrt (<) (map fst (map (\<lambda>offset. (offset, the (map_of km offset)))
          (sort (filter (\<lambda>offset. s \<le> offset) (map fst km)))))"
  by (simp add: comp_def strict_sorted_iff)

subsection \<open>One step\<close>

lemma exec_append: "exec st (evs @ evs') = exec (exec st evs) evs'"
  by (induction evs arbitrary: st) simp_all

lemma exec_snoc: "exec st (evs @ [ev]) = store_after (handle (exec st evs) ev)"
  by (simp add: exec_append)

lemma send_undecoded: "send st (Inl e) r = \<lparr>store_after = st, replied = None, returned = Some e\<rparr>"
  by (simp add: send_def)

lemma poll_store: "store_after (poll st b r) = st"
  by (simp add: poll_def split: sum.split PollBody.split)

lemma list_committed_offsets_store: "store_after (list_committed_offsets st b r) = st"
  by (simp add: list_committed_offsets_def split: sum.split ListCommittedOffsetsBody.split)

lemma next_offset_commit_offsets:
  "next_offset (store_after (commit_offsets st b r)) k = next_offset st k"
  by (simp add: next_offset_def commit_offsets_uncommitted)

lemma send_committed: "committed (store_after (send st b r)) = committed st"
proof (cases b)
  case (Inl e)
  then show ?thesis by (simp add: send_undecoded)
next
  case (Inr sb)
  obtain k m where sb: "sb = SendBody k m" by (cases sb)
  show ?thesis
    by (cases r) (simp_all add: Inr sb send_acked_store send_failed_store)
qed

lemma acked_offset_step:
  "acked_offset k ev (handle st ev) = []
     \<and> next_offset (store_after (handle st ev)) k = next_offset st k
   \<or> acked_offset k ev (handle st ev) = [next_offset st k]
     \<and> next_offset (store_after (handle st ev)) k = wrap64 (next_offset st k + 1)"
proof (cases ev)
  case (SendMsg b r)
  show ?thesis
  proof (cases b)
    case (Inl e)
    then show ?thesis by (simp add: SendMsg send_undecoded)
  next
    case (Inr sb)
    obtain k' m where sb: "sb = SendBody k' m" by (cases sb)
    show ?thesis
    proof (cases r)
      case None
      then show ?thesis
        by (simp add: SendMsg Inr sb send_replied send_returned next_offset_send_acked)
    next
      case (Some e)
      then show ?thesis
        by (simp add: SendMsg Inr sb send_replied send_returned next_offset_send_failed)
    qed
  qed
next
  case (PollMsg b r)
  then show ?thesis by (simp add: poll_store)
next
  case (CommitOffsetsMsg b r)
  then show ?thesis by (simp add: next_offset_commit_offsets)
next
  case (ListCommittedOffsetsMsg b r)
  then show ?thesis by (simp add: list_committed_offsets_store)
qed

subsection \<open>The offsets a run hands out\<close>

lemma map_upt_Suc_shift: "map f [0..<Suc n] = f 0 # map (\<lambda>i. f (Suc i)) [0..<n]"
  by (simp add: upt_conv_Cons map_Suc_upt [symmetric] comp_def del: upt_Suc)

lemma acked_offsets_from:
  "0 \<le> next_offset st k \<Longrightarrow> next_offset st k + int (length evs) < 2 ^ 63 \<Longrightarrow>
   \<exists>n \<le> length evs.
     acked_offsets k st evs = map (\<lambda>i. next_offset st k + int i) [0..<n]
     \<and> next_offset (exec st evs) k = next_offset st k + int n"
proof (induction evs arbitrary: st)
  case Nil
  then show ?case by simp
next
  case (Cons ev evs)
  let ?c = "next_offset st k"
  let ?st' = "store_after (handle st ev)"
  from acked_offset_step [of k ev st] show ?case
  proof (elim disjE conjE)
    assume a: "acked_offset k ev (handle st ev) = []" and c: "next_offset ?st' k = ?c"
    from Cons.prems c have "0 \<le> next_offset ?st' k"
      and "next_offset ?st' k + int (length evs) < 2 ^ 63" by simp_all
    from Cons.IH [OF this] c obtain n where "n \<le> length evs"
      and "acked_offsets k ?st' evs = map (\<lambda>i. ?c + int i) [0..<n]"
      and "next_offset (exec ?st' evs) k = ?c + int n" by auto
    with a show ?thesis
      by (intro exI [of _ n]) simp
  next
    assume a: "acked_offset k ev (handle st ev) = [?c]"
      and c: "next_offset ?st' k = wrap64 (?c + 1)"
    from Cons.prems have "wrap64 (?c + 1) = ?c + 1"
      by (intro wrap64_small) simp_all
    with c have c': "next_offset ?st' k = ?c + 1" by simp
    with Cons.prems have "0 \<le> next_offset ?st' k"
      and "next_offset ?st' k + int (length evs) < 2 ^ 63" by simp_all
    from Cons.IH [OF this] c' obtain n where n: "n \<le> length evs"
      and "acked_offsets k ?st' evs = map (\<lambda>i. ?c + 1 + int i) [0..<n]"
      and "next_offset (exec ?st' evs) k = ?c + 1 + int n" by auto
    with a have "acked_offsets k st (ev # evs) = map (\<lambda>i. ?c + int i) [0..<Suc n]"
      and "next_offset (exec st (ev # evs)) k = ?c + int (Suc n)"
      by (simp_all add: map_upt_Suc_shift add.assoc del: upt_Suc)
    with n show ?thesis
      by (intro exI [of _ "Suc n"]) simp
  qed
qed

lemma next_offset_init: "next_offset init k = 0"
  by (simp add: next_offset_def init_def offsets_at_def)

lemma acked_offsets_init:
  assumes "length evs < 2 ^ 63"
  shows "\<exists>n \<le> length evs.
     acked_offsets k init evs = map int [0..<n] \<and> next_offset (exec init evs) k = int n"
proof -
  from assms have "next_offset init k + int (length evs) < 2 ^ 63"
    by (simp add: next_offset_init)
  from acked_offsets_from [OF _ this] show ?thesis
    by (simp add: next_offset_init)
qed

subsection \<open>Keys a run never touched\<close>

lemma appended_Cons: "appended k (ev # evs) = appended k [ev] @ appended k evs"
  by (cases "(k, ev # evs)" rule: appended.cases) simp_all

lemma requested_commits_Cons:
  "requested_commits k (ev # evs) = requested_commits k [ev] @ requested_commits k evs"
  by (cases "(k, ev # evs)" rule: requested_commits.cases) simp_all

lemma requested_commits_append:
  "requested_commits k (evs @ evs') = requested_commits k evs @ requested_commits k evs'"
proof (induction evs)
  case Nil
  then show ?case by simp
next
  case (Cons ev evs)
  then show ?case
    using requested_commits_Cons [of k ev "evs @ evs'"] requested_commits_Cons [of k ev evs]
    by simp
qed

lemma msgs_send_other:
  "k' \<noteq> k \<Longrightarrow>
   map_of (msgs (uncommitted (store_after (send st (Inr (SendBody k' m)) r)))) k
     = map_of (msgs (uncommitted st)) k"
  by (cases r) (simp_all add: send_acked_store send_failed_store update_conv' map_of_ensure_key)

lemma msgs_step_not_appended:
  assumes "appended k [ev] = []"
  shows "map_of (msgs (uncommitted (store_after (handle st ev)))) k = map_of (msgs (uncommitted st)) k"
proof (cases ev)
  case (SendMsg b r)
  show ?thesis
  proof (cases b)
    case (Inl e)
    then show ?thesis by (simp add: SendMsg send_undecoded)
  next
    case (Inr sb)
    obtain k' m where sb: "sb = SendBody k' m" by (cases sb)
    with assms SendMsg Inr have "k' \<noteq> k" by (auto split: if_splits)
    then show ?thesis by (simp add: SendMsg Inr sb msgs_send_other)
  qed
next
  case (PollMsg b r)
  then show ?thesis by (simp add: poll_store)
next
  case (CommitOffsetsMsg b r)
  then show ?thesis by (simp add: commit_offsets_uncommitted)
next
  case (ListCommittedOffsetsMsg b r)
  then show ?thesis by (simp add: list_committed_offsets_store)
qed

lemma msgs_exec_not_appended:
  "appended k evs = [] \<Longrightarrow>
   map_of (msgs (uncommitted (exec st evs))) k = map_of (msgs (uncommitted st)) k"
proof (induction evs arbitrary: st)
  case Nil
  then show ?case by simp
next
  case (Cons ev evs)
  from Cons.prems appended_Cons [of k ev evs]
  have "appended k [ev] = []" and "appended k evs = []" by simp_all
  then show ?case
    by (simp add: Cons.IH msgs_step_not_appended)
qed

lemma never_appended_absent:
  "appended k evs = [] \<Longrightarrow> map_of (msgs (uncommitted (exec init evs))) k = None"
  by (simp add: msgs_exec_not_appended) (simp add: init_def)

lemma offsets_commit_key_other:
  "k \<noteq> fst kr \<Longrightarrow> map_of (offsets (commit_key u kr l)) k = map_of (offsets l) k"
  by (cases kr) (simp add: commit_key_def update_conv' split: option.split)

lemma offsets_fold_commit_key_other:
  "k \<notin> fst ` set requested \<Longrightarrow>
   map_of (offsets (fold (commit_key u) requested l)) k = map_of (offsets l) k"
  by (induction requested arbitrary: l) (simp_all add: offsets_commit_key_other)

lemma marker_step_not_requested:
  assumes "requested_commits k [ev] = []"
  shows "map_of (offsets (committed (store_after (handle st ev)))) k
           = map_of (offsets (committed st)) k"
proof (cases ev)
  case (SendMsg b r)
  then show ?thesis by (simp add: send_committed)
next
  case (PollMsg b r)
  then show ?thesis by (simp add: poll_store)
next
  case (CommitOffsetsMsg b r)
  show ?thesis
  proof (cases b)
    case (Inl e)
    then show ?thesis by (simp add: CommitOffsetsMsg commit_offsets_def)
  next
    case (Inr cb)
    obtain requested where cb: "cb = CommitOffsetsBody requested" by (cases cb)
    from assms have "k \<notin> fst ` set requested"
      by (auto simp: CommitOffsetsMsg Inr cb filter_empty_conv)
    then show ?thesis
      by (simp add: CommitOffsetsMsg Inr cb commit_offsets_def offsets_fold_commit_key_other)
  qed
next
  case (ListCommittedOffsetsMsg b r)
  then show ?thesis by (simp add: list_committed_offsets_store)
qed

lemma marker_exec_not_requested:
  "requested_commits k evs = [] \<Longrightarrow>
   map_of (offsets (committed (exec st evs))) k = map_of (offsets (committed st)) k"
proof (induction evs arbitrary: st)
  case Nil
  then show ?case by simp
next
  case (Cons ev evs)
  from Cons.prems requested_commits_Cons [of k ev evs]
  have "requested_commits k [ev] = []" and "requested_commits k evs = []" by simp_all
  then show ?case
    by (simp add: Cons.IH marker_step_not_requested)
qed

lemma never_committed_absent:
  "requested_commits k evs = [] \<Longrightarrow> map_of (offsets (committed (exec init evs))) k = None"
  by (simp add: marker_exec_not_requested) (simp add: init_def)

subsection \<open>Every per-key log of a run holds each offset once\<close>

lemma list_all_update:
  "list_all P al \<Longrightarrow> P (k, v) \<Longrightarrow> list_all P (AList.update k v al)"
  by (induction al) auto

lemma wf_msgs_at: "wf_logs l \<Longrightarrow> distinct (map fst (msgs_at (msgs l) k))"
  by (cases "map_of (msgs l) k") (auto simp: msgs_at_def dest: wf_logs_distinct)

lemma wf_stored:
  assumes "wf_logs l"
  shows "wf_logs \<lparr>offsets = os,
           msgs = AList.update k (AList.update c m (msgs_at (msgs l) k)) (ensure_key k [] (msgs l))\<rparr>"
proof -
  let ?P = "\<lambda>kv :: string \<times> (int \<times> int) list. distinct (map fst (snd kv))"
  from assms have "list_all ?P (ensure_key k [] (msgs l))"
    by (simp add: ensure_key_def wf_logs_def list_all_update)
  moreover have "?P (k, AList.update c m (msgs_at (msgs l) k))"
    using wf_msgs_at [OF assms, of k] by (simp add: distinct_update)
  ultimately show ?thesis
    by (simp add: wf_logs_def list_all_update)
qed

lemma wf_send: "wf_logs (uncommitted st) \<Longrightarrow> wf_logs (uncommitted (store_after (send st b r)))"
proof (cases b)
  case (Inl e)
  assume "wf_logs (uncommitted st)"
  then show ?thesis by (simp add: Inl send_undecoded)
next
  case (Inr sb)
  assume w: "wf_logs (uncommitted st)"
  obtain k m where sb: "sb = SendBody k m" by (cases sb)
  show ?thesis
    by (cases r) (simp_all add: Inr sb send_acked_store send_failed_store wf_stored [OF w])
qed

lemma wf_step:
  "wf_logs (uncommitted st) \<Longrightarrow> wf_logs (uncommitted (store_after (handle st ev)))"
  by (cases ev)
     (simp_all add: wf_send poll_store commit_offsets_uncommitted list_committed_offsets_store)

lemma wf_exec: "wf_logs (uncommitted st) \<Longrightarrow> wf_logs (uncommitted (exec st evs))"
  by (induction evs arbitrary: st) (simp_all add: wf_step)

lemma wf_init: "wf_logs (uncommitted init)"
  by (simp add: wf_logs_def init_def)

lemma wf_reachable: "wf_logs (uncommitted (exec init evs))"
  by (rule wf_exec [OF wf_init])

subsection \<open>Stored entries stay as long as the counter is fresh\<close>

lemma log_step:
  "log_of (uncommitted (store_after (handle st ev))) k off = Some m \<Longrightarrow>
   log_of (uncommitted st) k off = Some m
   \<or> (\<exists>r. ev = SendMsg (Inr (SendBody k m)) r) \<and> off = next_offset st k"
proof (cases ev)
  case (SendMsg b r)
  assume l: "log_of (uncommitted (store_after (handle st ev))) k off = Some m"
  show ?thesis
  proof (cases b)
    case (Inl e)
    with l show ?thesis by (simp add: SendMsg send_undecoded)
  next
    case (Inr sb)
    obtain k' m' where sb: "sb = SendBody k' m'" by (cases sb)
    from l show ?thesis
      by (auto simp: SendMsg Inr sb log_of_send split: if_splits)
  qed
next
  case (PollMsg b r)
  assume "log_of (uncommitted (store_after (handle st ev))) k off = Some m"
  then show ?thesis by (simp add: PollMsg poll_store)
next
  case (CommitOffsetsMsg b r)
  assume "log_of (uncommitted (store_after (handle st ev))) k off = Some m"
  then show ?thesis by (simp add: CommitOffsetsMsg commit_offsets_uncommitted)
next
  case (ListCommittedOffsetsMsg b r)
  assume "log_of (uncommitted (store_after (handle st ev))) k off = Some m"
  then show ?thesis by (simp add: ListCommittedOffsetsMsg list_committed_offsets_store)
qed

lemma log_step_kept:
  assumes "log_of (uncommitted st) k (next_offset st k) = None"
    and "log_of (uncommitted st) k off = Some m"
  shows "log_of (uncommitted (store_after (handle st ev))) k off = Some m"
proof (cases ev)
  case (SendMsg b r)
  show ?thesis
  proof (cases b)
    case (Inl e)
    with assms show ?thesis by (simp add: SendMsg send_undecoded)
  next
    case (Inr sb)
    obtain k' m' where sb: "sb = SendBody k' m'" by (cases sb)
    from assms have "off \<noteq> next_offset st k" by auto
    with assms(2) show ?thesis
      by (auto simp: SendMsg Inr sb log_of_send)
  qed
next
  case (PollMsg b r)
  with assms show ?thesis by (simp add: poll_store)
next
  case (CommitOffsetsMsg b r)
  with assms show ?thesis by (simp add: commit_offsets_uncommitted)
next
  case (ListCommittedOffsetsMsg b r)
  with assms show ?thesis by (simp add: list_committed_offsets_store)
qed

lemma acked_offset_replied:
  "acked_offset k (SendMsg (Inr (SendBody k m)) None) (handle st (SendMsg (Inr (SendBody k m)) None))
     = [next_offset st k]"
  by (simp add: send_replied send_returned)

lemma stored_below_counter:
  assumes "list_all reply_delivered evs" and "length evs < 2 ^ 63"
    and "log_of (uncommitted (exec init evs)) k off \<noteq> None"
  shows "off < next_offset (exec init evs) k"
  using assms
proof (induction evs arbitrary: off rule: rev_induct)
  case Nil
  then show ?case by (simp add: log_of_def msgs_at_def init_def)
next
  case (snoc ev evs)
  let ?st = "exec init evs"
  let ?st' = "store_after (handle ?st ev)"
  from snoc.prems have all: "list_all reply_delivered evs" and ev: "reply_delivered ev"
    and len: "length evs < 2 ^ 63" and len': "length evs + 1 < 2 ^ 63" by simp_all
  from snoc.prems(3) obtain m where m: "log_of (uncommitted ?st') k off = Some m"
    by (auto simp: exec_snoc)
  from acked_offsets_init [OF len, of k] obtain n where n: "n \<le> length evs"
    and c: "next_offset ?st k = int n" by blast
  from len' have "int (length evs + 1) < int (2 ^ 63)"
    by (simp only: of_nat_less_iff)
  then have "int (length evs) + 1 < 2 ^ 63" by simp
  with n have "int n + 1 < 2 ^ 63" by linarith
  then have w: "wrap64 (next_offset ?st k + 1) = next_offset ?st k + 1"
    unfolding c by (intro wrap64_small) simp_all
  from log_step [OF m] show ?case
  proof (elim disjE conjE exE)
    assume old: "log_of (uncommitted ?st) k off = Some m"
    then have "off < next_offset ?st k"
      by (intro snoc.IH [OF all len]) simp
    moreover from acked_offset_step [of k ev ?st] w
    have "next_offset ?st k \<le> next_offset ?st' k" by auto
    ultimately show ?thesis by (simp add: exec_snoc)
  next
    fix r assume e: "ev = SendMsg (Inr (SendBody k m)) r" and o: "off = next_offset ?st k"
    from ev e have "r = None" by (cases r) simp_all
    with e have "next_offset ?st' k = wrap64 (next_offset ?st k + 1)"
      by (simp add: next_offset_send_acked)
    with w o show ?thesis by (simp add: exec_snoc)
  qed
qed

subsection \<open>Where committed entries come from\<close>

lemma log_commit_key:
  assumes "wf_logs u" and "log_of (commit_key u kr l) k off = Some m"
  shows "log_of l k off = Some m \<or> fst kr = k \<and> off \<le> snd kr \<and> log_of u k off = Some m"
proof -
  obtain k' c where kr: "kr = (k', c)" by (cases kr)
  show ?thesis
  proof (cases "map_of (msgs u) k'")
    case None
    with assms(2) show ?thesis by (simp add: kr commit_key_unknown)
  next
    case (Some km)
    with assms(1) have d: "distinct (map fst km)" by (rule wf_logs_distinct)
    have u: "msgs_at (msgs u) k' = km" using Some by (simp add: msgs_at_def)
    show ?thesis
    proof (cases "k = k'")
      case False
      with assms(2) show ?thesis
        by (simp add: kr commit_key_known [OF Some] log_of_def log_fold_commit_entry_other)
    next
      case True
      with assms(2) show ?thesis
        by (auto simp: kr u commit_key_known [OF Some] log_of_def log_fold_commit_entry [OF d]
            split: option.splits if_splits)
    qed
  qed
qed

lemma log_fold_commit_key:
  assumes "wf_logs u"
  shows "log_of (fold (commit_key u) requested l) k off = Some m \<Longrightarrow>
     log_of l k off = Some m
     \<or> (\<exists>c. (k, c) \<in> set requested \<and> off \<le> c) \<and> log_of u k off = Some m"
proof (induction requested arbitrary: l)
  case Nil
  then show ?case by simp
next
  case (Cons kr requested)
  from Cons.prems have "log_of (fold (commit_key u) requested (commit_key u kr l)) k off = Some m"
    by simp
  from Cons.IH [OF this] show ?case
  proof
    assume "log_of (commit_key u kr l) k off = Some m"
    from log_commit_key [OF assms this] show ?thesis
      by (cases kr) auto
  next
    assume "(\<exists>c. (k, c) \<in> set requested \<and> off \<le> c) \<and> log_of u k off = Some m"
    then show ?thesis by auto
  qed
qed

lemma committed_step:
  assumes "wf_logs (uncommitted st)"
    and "log_of (committed (store_after (handle st ev))) k off = Some m"
  shows "log_of (committed st) k off = Some m
     \<or> (\<exists>c \<in> set (requested_commits k [ev]). off \<le> c) \<and> log_of (uncommitted st) k off = Some m"
proof (cases ev)
  case (SendMsg b r)
  with assms(2) show ?thesis by (simp add: send_committed)
next
  case (PollMsg b r)
  with assms(2) show ?thesis by (simp add: poll_store)
next
  case (CommitOffsetsMsg b r)
  show ?thesis
  proof (cases b)
    case (Inl e)
    with assms(2) show ?thesis by (simp add: CommitOffsetsMsg commit_offsets_def)
  next
    case (Inr cb)
    obtain requested where cb: "cb = CommitOffsetsBody requested" by (cases cb)
    from assms(2)
    have "log_of (fold (commit_key (uncommitted st)) requested (committed st)) k off = Some m"
      by (simp add: CommitOffsetsMsg Inr cb commit_offsets_def)
    from log_fold_commit_key [OF assms(1) this] show ?thesis
      by (force simp: CommitOffsetsMsg Inr cb)
  qed
next
  case (ListCommittedOffsetsMsg b r)
  with assms(2) show ?thesis by (simp add: list_committed_offsets_store)
qed

section \<open>Offsets are handed out in sequence\<close>

text \<open>
  Claim C1 does not hold of the send handler: the handler returns on a failed reply
  before it reaches \<open>offset++\<close> (lines 197 to 203), although the comment on the \<open>send\<close>
  message asks for the unique offset of the message in the log. Take the empty store
  and three appends to \<open>k1\<close>, of 9, 5 and 7, where \<open>node.Reply\<close> fails for the second.
  The first append is handed offset 0. The second is handed offset 1, stores 5 there,
  returns the error and leaves the counter at 1. The third is handed offset 1 again and
  replaces 5 by 7. So the offsets handed out are 0, 1, 1, with a duplicate, and three
  appends have moved the counter on by two.
\<close>

theorem send_failed_reply_repeats_offset:
  "replied (send init (Inr (SendBody ''k1'' 9)) None) = Some (SendOkBody 0)
   \<and> replied (send (exec init [SendMsg (Inr (SendBody ''k1'' 9)) None])
         (Inr (SendBody ''k1'' 5)) (Some ReplyError)) = Some (SendOkBody 1)
   \<and> returned (send (exec init [SendMsg (Inr (SendBody ''k1'' 9)) None])
         (Inr (SendBody ''k1'' 5)) (Some ReplyError)) = Some ReplyError
   \<and> log_of (uncommitted (exec init
         [SendMsg (Inr (SendBody ''k1'' 9)) None,
          SendMsg (Inr (SendBody ''k1'' 5)) (Some ReplyError)])) ''k1'' 1 = Some 5
   \<and> next_offset (exec init
         [SendMsg (Inr (SendBody ''k1'' 9)) None,
          SendMsg (Inr (SendBody ''k1'' 5)) (Some ReplyError)]) ''k1'' = 1
   \<and> replied (send (exec init
         [SendMsg (Inr (SendBody ''k1'' 9)) None,
          SendMsg (Inr (SendBody ''k1'' 5)) (Some ReplyError)])
         (Inr (SendBody ''k1'' 7)) None) = Some (SendOkBody 1)
   \<and> log_of (uncommitted (exec init
         [SendMsg (Inr (SendBody ''k1'' 9)) None,
          SendMsg (Inr (SendBody ''k1'' 5)) (Some ReplyError),
          SendMsg (Inr (SendBody ''k1'' 7)) None])) ''k1'' 1 = Some 7
   \<and> next_offset (exec init
         [SendMsg (Inr (SendBody ''k1'' 9)) None,
          SendMsg (Inr (SendBody ''k1'' 5)) (Some ReplyError),
          SendMsg (Inr (SendBody ''k1'' 7)) None]) ''k1'' = 2"
  by (simp add: send_replied send_returned next_offset_send_acked next_offset_send_failed
      next_offset_init log_of_send wrap64_def)

text \<open>
  What the handler does guarantee concerns the appends it acknowledged (those whose
  handler returned \<open>nil\<close>). In any run from the empty store (sends to any keys, with
  replies delivered or not, polls, commits and listings, in the order in which the
  handlers held the lock) the offsets the acknowledged appends to a key \<open>k\<close> returned
  are exactly \<open>0, 1, 2, \<dots>\<close> in that order; the counter of \<open>k\<close> equals their number, and
  one more acknowledged append returns that number and moves the counter on by one.
  The run is shorter than \<open>2 ^ 63\<close>, the range of Go's \<open>int\<close> in which \<open>offset++\<close> does
  not wrap around.
\<close>

lemma acked_offsets_sequential:
  assumes "length evs + 1 < 2 ^ 63"
  shows "acked_offsets k init evs = map int [0..<length (acked_offsets k init evs)]
     \<and> sorted_wrt (<) (acked_offsets k init evs)
     \<and> next_offset (exec init evs) k = int (length (acked_offsets k init evs))
     \<and> replied (send (exec init evs) (Inr (SendBody k m)) None)
           = Some (SendOkBody (int (length (acked_offsets k init evs))))
     \<and> next_offset (store_after (send (exec init evs) (Inr (SendBody k m)) None)) k
           = next_offset (exec init evs) k + 1"
proof -
  from assms have "length evs < 2 ^ 63" by simp
  from acked_offsets_init [OF this, of k] obtain n where n: "n \<le> length evs"
    and a: "acked_offsets k init evs = map int [0..<n]"
    and c: "next_offset (exec init evs) k = int n" by blast
  from a have l: "length (acked_offsets k init evs) = n" by simp
  have s: "sorted_wrt (<) (map int [0..<n])"
    by (simp add: sorted_wrt_map del: upt_Suc)
  from assms have "int (length evs + 1) < int (2 ^ 63)"
    by (simp only: of_nat_less_iff)
  then have "int (length evs) + 1 < 2 ^ 63" by simp
  with n have "int n + 1 < 2 ^ 63" by linarith
  then have "wrap64 (int n + 1) = int n + 1"
    by (intro wrap64_small) simp_all
  then have "next_offset (store_after (send (exec init evs) (Inr (SendBody k m)) None)) k
      = int n + 1"
    by (simp add: next_offset_send_acked c)
  moreover have "replied (send (exec init evs) (Inr (SendBody k m)) None)
      = Some (SendOkBody (int n))"
    by (simp add: send_replied c)
  ultimately show ?thesis
    unfolding l c using a s by simp
qed

lemma acked_offsets_sequential_example:
  "length [SendMsg (Inr (SendBody ''k1'' 9)) None,
           SendMsg (Inr (SendBody ''k1'' 5)) (Some ReplyError),
           SendMsg (Inr (SendBody ''k2'' 5)) None,
           SendMsg (Inr (SendBody ''k1'' 7)) None] + 1 < (2::nat) ^ 63
   \<and> acked_offsets ''k1'' init
          [SendMsg (Inr (SendBody ''k1'' 9)) None,
           SendMsg (Inr (SendBody ''k1'' 5)) (Some ReplyError),
           SendMsg (Inr (SendBody ''k2'' 5)) None,
           SendMsg (Inr (SendBody ''k1'' 7)) None] = [0, 1]
   \<and> next_offset (exec init
          [SendMsg (Inr (SendBody ''k1'' 9)) None,
           SendMsg (Inr (SendBody ''k1'' 5)) (Some ReplyError),
           SendMsg (Inr (SendBody ''k2'' 5)) None,
           SendMsg (Inr (SendBody ''k1'' 7)) None]) ''k1'' = 2"
proof -
  let ?evs = "[SendMsg (Inr (SendBody ''k1'' 9)) None,
           SendMsg (Inr (SendBody ''k1'' 5)) (Some ReplyError),
           SendMsg (Inr (SendBody ''k2'' 5)) None,
           SendMsg (Inr (SendBody ''k1'' 7)) None]"
  have b: "length ?evs + 1 < (2::nat) ^ 63" by simp
  have l: "length (acked_offsets ''k1'' init ?evs) = 2"
    by (simp add: send_replied send_returned)
  from acked_offsets_sequential [OF b, of "''k1''" 0]
  have t1: "acked_offsets ''k1'' init ?evs = map int [0..<2]"
    and t2: "next_offset (exec init ?evs) ''k1'' = int 2"
    unfolding l by blast+
  have "map int [0..<2] = [0, 1]"
    by (simp add: upt_conv_Cons)
  with t1 have t1': "acked_offsets ''k1'' init ?evs = [0, 1]"
    by (rule trans)
  from t2 have t2': "next_offset (exec init ?evs) ''k1'' = 2"
    by (simp only: of_nat_numeral)
  from b t1' t2' show ?thesis
    by (intro conjI)
qed

section \<open>Poll correctness\<close>

text \<open>
  Claim C2. For every store whose per-key logs hold each offset once, every key \<open>k\<close> and
  starting offset \<open>s\<close>, the reply body of a poll for \<open>{k: s}\<close> carries the map
  \<open>poll_msgs\<close>, and that map is as follows. When the uncommitted table stores no entry
  of \<open>k\<close> with offset at least \<open>s\<close> (the key was never appended to, or all its entries
  are below \<open>s\<close>), the map is empty: it has no entry for \<open>k\<close>, not even an empty list.
  Otherwise it has the one key \<open>k\<close>, whose list holds exactly the (offset, message) pairs
  stored for \<open>k\<close> with offset at least \<open>s\<close>, in strictly ascending order of offset; so
  no returned offset is below \<open>s\<close> or absent from the store.
\<close>

theorem poll_returns_stored_entries:
  assumes "wf_logs (uncommitted st)"
  shows "replied (poll st (Inr (PollBody [(k, s)])) reply)
           = Some (PollOkBody (poll_msgs st [(k, s)]))
     \<and> (stored_from st k s = {} \<longrightarrow> poll_msgs st [(k, s)] = [])
     \<and> (stored_from st k s \<noteq> {} \<longrightarrow>
          (\<exists>ps. poll_msgs st [(k, s)] = [(k, ps)]
                \<and> set ps = stored_from st k s
                \<and> sorted_wrt (<) (map fst ps)))"
proof (cases "map_of (msgs (uncommitted st)) k")
  case None
  then show ?thesis
    by (simp add: poll_replied poll_msgs_single_unknown stored_from_unknown)
next
  case (Some km)
  let ?ps = "map (\<lambda>offset. (offset, the (map_of km offset)))
               (sort (filter (\<lambda>offset. s \<le> offset) (map fst km)))"
  from assms Some have d: "distinct (map fst km)" by (rule wf_logs_distinct)
  have stored: "stored_from st k s = set ?ps"
    by (simp only: stored_from_known [OF Some] set_polled_entries)
  have empty: "filter (\<lambda>offset. s \<le> offset) (map fst km) = [] \<longleftrightarrow> stored_from st k s = {}"
    unfolding stored by (simp del: set_map add: length_0_conv [symmetric] del: length_0_conv)
  have asc: "sorted_wrt (<) (map fst ?ps)"
    using d by (rule polled_offsets_ascending)
  show ?thesis
  proof (cases "stored_from st k s = {}")
    case True
    with empty show ?thesis
      by (simp add: poll_replied poll_msgs_single_known [OF Some])
  next
    case False
    with empty have "poll_msgs st [(k, s)] = [(k, ?ps)]"
      by (simp add: poll_msgs_single_known [OF Some])
    with False stored asc show ?thesis
      by (simp only: poll_replied) blast
  qed
qed

theorem poll_returns_stored_entries_witness:
  "wf_logs (uncommitted (exec init
      [SendMsg (Inr (SendBody ''k1'' 9)) None, SendMsg (Inr (SendBody ''k1'' 5)) None]))
   \<and> (1, 5) \<in> stored_from (exec init
      [SendMsg (Inr (SendBody ''k1'' 9)) None, SendMsg (Inr (SendBody ''k1'' 5)) None]) ''k1'' 1
   \<and> stored_from (exec init
      [SendMsg (Inr (SendBody ''k1'' 9)) None, SendMsg (Inr (SendBody ''k1'' 5)) None]) ''k1'' 2 = {}
   \<and> poll_msgs (exec init
      [SendMsg (Inr (SendBody ''k1'' 9)) None, SendMsg (Inr (SendBody ''k1'' 5)) None])
      [(''k1'', 2)] = []
   \<and> (\<exists>ps. poll_msgs (exec init
      [SendMsg (Inr (SendBody ''k1'' 9)) None, SendMsg (Inr (SendBody ''k1'' 5)) None])
      [(''k1'', 1)] = [(''k1'', ps)]
      \<and> set ps = stored_from (exec init
      [SendMsg (Inr (SendBody ''k1'' 9)) None, SendMsg (Inr (SendBody ''k1'' 5)) None]) ''k1'' 1
      \<and> sorted_wrt (<) (map fst ps))"
proof -
  let ?st = "exec init
      [SendMsg (Inr (SendBody ''k1'' 9)) None, SendMsg (Inr (SendBody ''k1'' 5)) None]"
  have w: "wf_logs (uncommitted ?st)"
    unfolding scenario_store by (simp add: wf_logs_def)
  have m: "(1, 5) \<in> stored_from ?st ''k1'' 1"
    unfolding scenario_store by (simp add: stored_from_def log_of_def msgs_at_def)
  have e: "stored_from ?st ''k1'' 2 = {}"
    unfolding scenario_store by (auto simp: stored_from_def log_of_def msgs_at_def)
  from m have ne: "stored_from ?st ''k1'' 1 \<noteq> {}" by blast
  from poll_returns_stored_entries [OF w, of "''k1''" 2 None]
       poll_returns_stored_entries [OF w, of "''k1''" 1 None] w m e ne
  show ?thesis by blast
qed

section \<open>Commit visibility\<close>

text \<open>
  Claim C3, as stated for every store, key and offset, fails for a key that is absent
  from the uncommitted table: the handler skips such a key, so after
  \<open>commit_offsets {k1: 0}\<close> on the empty store, list_committed_offsets for \<open>[k1]\<close>
  answers with the empty map and not with \<open>{k1: 0}\<close>.
\<close>

theorem commit_unknown_key_then_list_counterexample:
  "listed_offsets (store_after (commit_offsets init (Inr (CommitOffsetsBody [(''k1'', 0)])) None))
      [''k1''] = []
   \<and> replied (list_committed_offsets
        (store_after (commit_offsets init (Inr (CommitOffsetsBody [(''k1'', 0)])) None))
        (Inr (ListCommittedOffsetsBody [''k1''])) None)
      \<noteq> Some (ListCommittedOffsetsOkBody [(''k1'', 0)])"
  by (simp add: commit_offsets_single commit_key_def init_def listed_offsets_single
      list_committed_offsets_replied)

text \<open>
  Claim C3, amended. For every store whose per-key logs hold each offset once, every key
  \<open>k\<close> present in the uncommitted table and every offset \<open>c\<close>: right after
  \<open>commit_offsets {k: c}\<close>, list_committed_offsets for \<open>[k]\<close> answers \<open>{k: c}\<close>, and
  the committed log of \<open>k\<close> holds every entry the uncommitted log of \<open>k\<close> held at
  commit time with offset at most \<open>c\<close>.
\<close>

theorem commit_then_list_known_key:
  assumes "wf_logs (uncommitted st)" and "map_of (msgs (uncommitted st)) k \<noteq> None"
  shows "listed_offsets (store_after (commit_offsets st (Inr (CommitOffsetsBody [(k, c)])) reply)) [k]
           = [(k, c)]
     \<and> replied (list_committed_offsets
           (store_after (commit_offsets st (Inr (CommitOffsetsBody [(k, c)])) reply))
           (Inr (ListCommittedOffsetsBody [k])) reply')
           = Some (ListCommittedOffsetsOkBody [(k, c)])
     \<and> (\<forall>off m. log_of (uncommitted st) k off = Some m \<and> off \<le> c \<longrightarrow>
           log_of (committed (store_after
             (commit_offsets st (Inr (CommitOffsetsBody [(k, c)])) reply))) k off = Some m)"
  using assms
  by (simp add: listed_offsets_single marker_commit_single list_committed_offsets_replied
      log_of_commit_single)

theorem commit_then_list_known_key_witness:
  "wf_logs (uncommitted (exec init
      [SendMsg (Inr (SendBody ''k1'' 9)) None, SendMsg (Inr (SendBody ''k1'' 5)) None]))
   \<and> map_of (msgs (uncommitted (exec init
      [SendMsg (Inr (SendBody ''k1'' 9)) None, SendMsg (Inr (SendBody ''k1'' 5)) None]))) ''k1'' \<noteq> None
   \<and> log_of (uncommitted (exec init
      [SendMsg (Inr (SendBody ''k1'' 9)) None, SendMsg (Inr (SendBody ''k1'' 5)) None])) ''k1'' 0 = Some 9
   \<and> listed_offsets (store_after (commit_offsets (exec init
      [SendMsg (Inr (SendBody ''k1'' 9)) None, SendMsg (Inr (SendBody ''k1'' 5)) None])
      (Inr (CommitOffsetsBody [(''k1'', 0)])) None)) [''k1''] = [(''k1'', 0)]
   \<and> log_of (committed (store_after (commit_offsets (exec init
      [SendMsg (Inr (SendBody ''k1'' 9)) None, SendMsg (Inr (SendBody ''k1'' 5)) None])
      (Inr (CommitOffsetsBody [(''k1'', 0)])) None))) ''k1'' 0 = Some 9"
proof -
  let ?st = "exec init
      [SendMsg (Inr (SendBody ''k1'' 9)) None, SendMsg (Inr (SendBody ''k1'' 5)) None]"
  have w: "wf_logs (uncommitted ?st)"
    unfolding scenario_store by (simp add: wf_logs_def)
  have p: "map_of (msgs (uncommitted ?st)) ''k1'' \<noteq> None"
    unfolding scenario_store by simp
  have e: "log_of (uncommitted ?st) ''k1'' 0 = Some 9 \<and> (0::int) \<le> 0"
    unfolding scenario_store by (simp add: log_of_def msgs_at_def)
  from commit_then_list_known_key [OF w p, of 0 None None] w p e show ?thesis
    by blast
qed

section \<open>Committed entries and the uncommitted table\<close>

text \<open>
  Claim C4, as stated, fails in two reachable states. After two appends to \<open>k1\<close>,
  \<open>commit_offsets {k1: 1}\<close> and then \<open>commit_offsets {k1: 0}\<close>, the committed log of
  \<open>k1\<close> still holds the entry at offset 1 while the marker of the most recent commit is
  0: the later, lower commit moved the marker back and removed nothing. And after an
  append of 9 to \<open>k1\<close> whose reply failed, \<open>commit_offsets {k1: 0}\<close> and an append of 5
  to \<open>k1\<close>, the committed log holds message 9 at offset 0 while the uncommitted log holds
  message 5 there: the append after the failed one reused offset 0.
\<close>

theorem committed_entries_counterexample:
  "log_of (committed (exec init
      [SendMsg (Inr (SendBody ''k1'' 9)) None, SendMsg (Inr (SendBody ''k1'' 5)) None,
       CommitOffsetsMsg (Inr (CommitOffsetsBody [(''k1'', 1)])) None,
       CommitOffsetsMsg (Inr (CommitOffsetsBody [(''k1'', 0)])) None])) ''k1'' 1 = Some 5
   \<and> map_of (offsets (committed (exec init
      [SendMsg (Inr (SendBody ''k1'' 9)) None, SendMsg (Inr (SendBody ''k1'' 5)) None,
       CommitOffsetsMsg (Inr (CommitOffsetsBody [(''k1'', 1)])) None,
       CommitOffsetsMsg (Inr (CommitOffsetsBody [(''k1'', 0)])) None]))) ''k1'' = Some 0
   \<and> \<not> (1::int) \<le> 0
   \<and> log_of (committed (exec init
      [SendMsg (Inr (SendBody ''k1'' 9)) (Some ReplyError),
       CommitOffsetsMsg (Inr (CommitOffsetsBody [(''k1'', 0)])) None,
       SendMsg (Inr (SendBody ''k1'' 5)) None])) ''k1'' 0 = Some 9
   \<and> log_of (uncommitted (exec init
      [SendMsg (Inr (SendBody ''k1'' 9)) (Some ReplyError),
       CommitOffsetsMsg (Inr (CommitOffsetsBody [(''k1'', 0)])) None,
       SendMsg (Inr (SendBody ''k1'' 5)) None])) ''k1'' 0 = Some 5"
  by (simp add: init_def send_acked_store send_failed_store next_offset_def offsets_at_def
      msgs_at_def ensure_key_def wrap64_def commit_offsets_single commit_key_def
      commit_entry_def log_of_def)

text \<open>
  Claim C4, amended. In every state reached from the empty store by a run in which the
  reply of every send was delivered (and which is shorter than \<open>2 ^ 63\<close>, the range in
  which \<open>offset++\<close> does not wrap around), each (offset, message) entry of the committed
  log of a key \<open>k\<close> is also present, with the same message, in the uncommitted log of
  \<open>k\<close>, and its offset is at most the offset some commit request of the run named for
  \<open>k\<close>, hence at most the largest of them; it may exceed the marker of the most recent
  commit.
\<close>

theorem committed_entries_invariant:
  assumes "list_all reply_delivered evs" and "length evs < 2 ^ 63"
    and "log_of (committed (exec init evs)) k off = Some m"
  shows "log_of (uncommitted (exec init evs)) k off = Some m
     \<and> (\<exists>c \<in> set (requested_commits k evs). off \<le> c)"
  using assms
proof (induction evs arbitrary: off m rule: rev_induct)
  case Nil
  then show ?case by (simp add: log_of_def msgs_at_def init_def)
next
  case (snoc ev evs)
  let ?st = "exec init evs"
  from snoc.prems have all: "list_all reply_delivered evs" and len: "length evs < 2 ^ 63"
    and l: "log_of (committed (store_after (handle ?st ev))) k off = Some m"
    by (simp_all add: exec_snoc)
  have fresh: "log_of (uncommitted ?st) k (next_offset ?st k) = None"
  proof (rule ccontr)
    assume "log_of (uncommitted ?st) k (next_offset ?st k) \<noteq> None"
    from stored_below_counter [OF all len this] show False by simp
  qed
  from committed_step [OF wf_reachable l]
  have "log_of (uncommitted ?st) k off = Some m
     \<and> (\<exists>c \<in> set (requested_commits k evs) \<union> set (requested_commits k [ev]). off \<le> c)"
    using snoc.IH [OF all len] by blast
  then show ?case
    by (simp add: exec_snoc requested_commits_append log_step_kept [OF fresh] bex_Un)
qed

theorem committed_entries_invariant_witness:
  "list_all reply_delivered
      [SendMsg (Inr (SendBody ''k1'' 9)) None, SendMsg (Inr (SendBody ''k1'' 5)) None,
       CommitOffsetsMsg (Inr (CommitOffsetsBody [(''k1'', 1)])) None,
       CommitOffsetsMsg (Inr (CommitOffsetsBody [(''k1'', 0)])) None]
   \<and> length
      [SendMsg (Inr (SendBody ''k1'' 9)) None, SendMsg (Inr (SendBody ''k1'' 5)) None,
       CommitOffsetsMsg (Inr (CommitOffsetsBody [(''k1'', 1)])) None,
       CommitOffsetsMsg (Inr (CommitOffsetsBody [(''k1'', 0)])) None] < (2::nat) ^ 63
   \<and> log_of (committed (exec init
      [SendMsg (Inr (SendBody ''k1'' 9)) None, SendMsg (Inr (SendBody ''k1'' 5)) None,
       CommitOffsetsMsg (Inr (CommitOffsetsBody [(''k1'', 1)])) None,
       CommitOffsetsMsg (Inr (CommitOffsetsBody [(''k1'', 0)])) None])) ''k1'' 1 = Some 5
   \<and> log_of (uncommitted (exec init
      [SendMsg (Inr (SendBody ''k1'' 9)) None, SendMsg (Inr (SendBody ''k1'' 5)) None,
       CommitOffsetsMsg (Inr (CommitOffsetsBody [(''k1'', 1)])) None,
       CommitOffsetsMsg (Inr (CommitOffsetsBody [(''k1'', 0)])) None])) ''k1'' 1 = Some 5
   \<and> (\<exists>c \<in> set (requested_commits ''k1''
      [SendMsg (Inr (SendBody ''k1'' 9)) None, SendMsg (Inr (SendBody ''k1'' 5)) None,
       CommitOffsetsMsg (Inr (CommitOffsetsBody [(''k1'', 1)])) None,
       CommitOffsetsMsg (Inr (CommitOffsetsBody [(''k1'', 0)])) None]). 1 \<le> c)"
proof -
  let ?evs = "[SendMsg (Inr (SendBody ''k1'' 9)) None, SendMsg (Inr (SendBody ''k1'' 5)) None,
       CommitOffsetsMsg (Inr (CommitOffsetsBody [(''k1'', 1)])) None,
       CommitOffsetsMsg (Inr (CommitOffsetsBody [(''k1'', 0)])) None]"
  have a: "list_all reply_delivered ?evs" by simp
  have b: "length ?evs < (2::nat) ^ 63" by simp
  have c: "log_of (committed (exec init ?evs)) ''k1'' 1 = Some 5"
    by (simp add: init_def send_acked_store next_offset_def offsets_at_def
      msgs_at_def ensure_key_def wrap64_def commit_offsets_single commit_key_def
      commit_entry_def log_of_def)
  from committed_entries_invariant [OF a b c] a b c show ?thesis
    by (intro conjI) blast+
qed

section \<open>The commit marker is overwritten\<close>

text \<open>
  Claim C5, as stated for every key, fails for a key that is absent from the uncommitted
  table: both commits skip the key, and after \<open>commit_offsets {k1: 5}\<close> and
  \<open>commit_offsets {k1: 3}\<close> on the empty store \<open>k1\<close> has no marker at all.
\<close>

theorem commit_unknown_key_twice_counterexample:
  "map_of (offsets (committed (store_after
      (commit_offsets (store_after (commit_offsets init (Inr (CommitOffsetsBody [(''k1'', 5)])) None))
         (Inr (CommitOffsetsBody [(''k1'', 3)])) None)))) ''k1'' = None"
  by (simp add: commit_offsets_single commit_key_def init_def)

text \<open>
  Claim C5, amended. For every key \<open>k\<close> present in the uncommitted table and all offsets
  \<open>c1\<close> and \<open>c2\<close>, \<open>commit_offsets {k: c1}\<close> followed by \<open>commit_offsets {k: c2}\<close>
  leaves the marker of \<open>k\<close> equal to \<open>c2\<close>, also when \<open>c2 < c1\<close>: the marker is
  overwritten with the requested offset, it is not the maximum of the old and the new one.
\<close>

theorem commit_marker_overwritten:
  assumes "map_of (msgs (uncommitted st)) k \<noteq> None"
  shows "map_of (offsets (committed (store_after
           (commit_offsets (store_after (commit_offsets st (Inr (CommitOffsetsBody [(k, c1)])) r1))
              (Inr (CommitOffsetsBody [(k, c2)])) r2)))) k = Some c2
     \<and> listed_offsets (store_after
           (commit_offsets (store_after (commit_offsets st (Inr (CommitOffsetsBody [(k, c1)])) r1))
              (Inr (CommitOffsetsBody [(k, c2)])) r2)) [k] = [(k, c2)]"
proof -
  let ?st1 = "store_after (commit_offsets st (Inr (CommitOffsetsBody [(k, c1)])) r1)"
  have "map_of (msgs (uncommitted ?st1)) k \<noteq> None"
    using assms by (simp add: commit_offsets_uncommitted)
  then show ?thesis
    by (simp add: listed_offsets_single marker_commit_single)
qed

theorem commit_marker_overwritten_witness:
  "map_of (msgs (uncommitted (exec init
      [SendMsg (Inr (SendBody ''k1'' 9)) None, SendMsg (Inr (SendBody ''k1'' 5)) None]))) ''k1'' \<noteq> None
   \<and> map_of (offsets (committed (store_after
        (commit_offsets (store_after (commit_offsets (exec init
           [SendMsg (Inr (SendBody ''k1'' 9)) None, SendMsg (Inr (SendBody ''k1'' 5)) None])
           (Inr (CommitOffsetsBody [(''k1'', 1)])) None))
        (Inr (CommitOffsetsBody [(''k1'', 0)])) None)))) ''k1'' = Some 0"
proof -
  let ?st = "exec init
      [SendMsg (Inr (SendBody ''k1'' 9)) None, SendMsg (Inr (SendBody ''k1'' 5)) None]"
  have p: "map_of (msgs (uncommitted ?st)) ''k1'' \<noteq> None"
    unfolding scenario_store by simp
  from commit_marker_overwritten [OF p, of 1 None 0 None] p show ?thesis
    by blast
qed

section \<open>Commit is idempotent\<close>

text \<open>
  Claim C6. For every store whose per-key logs hold each offset once, every key \<open>k\<close>
  and offset \<open>c\<close>, running \<open>commit_offsets {k: c}\<close> twice in a row leaves the same
  store as running it once: the same committed logs, entry for entry, and the same
  markers.
\<close>

theorem commit_idempotent:
  assumes "wf_logs (uncommitted st)"
  shows "store_after
           (commit_offsets (store_after (commit_offsets st (Inr (CommitOffsetsBody [(k, c)])) r1))
              (Inr (CommitOffsetsBody [(k, c)])) r2)
         = store_after (commit_offsets st (Inr (CommitOffsetsBody [(k, c)])) r1)
     \<and> msgs (committed (store_after
           (commit_offsets (store_after (commit_offsets st (Inr (CommitOffsetsBody [(k, c)])) r1))
              (Inr (CommitOffsetsBody [(k, c)])) r2)))
         = msgs (committed (store_after (commit_offsets st (Inr (CommitOffsetsBody [(k, c)])) r1)))
     \<and> offsets (committed (store_after
           (commit_offsets (store_after (commit_offsets st (Inr (CommitOffsetsBody [(k, c)])) r1))
              (Inr (CommitOffsetsBody [(k, c)])) r2)))
         = offsets (committed (store_after (commit_offsets st (Inr (CommitOffsetsBody [(k, c)])) r1)))"
proof -
  have "store_after
           (commit_offsets (store_after (commit_offsets st (Inr (CommitOffsetsBody [(k, c)])) r1))
              (Inr (CommitOffsetsBody [(k, c)])) r2)
         = store_after (commit_offsets st (Inr (CommitOffsetsBody [(k, c)])) r1)"
  proof (cases "map_of (msgs (uncommitted st)) k")
    case None
    then show ?thesis by (simp add: commit_offsets_single commit_key_unknown)
  next
    case (Some km)
    with assms have "distinct (map fst km)" by (rule wf_logs_distinct)
    then show ?thesis
      by (simp add: commit_offsets_single commit_key_known [OF Some] fold_commit_entry_twice)
  qed
  then show ?thesis by simp
qed

theorem commit_idempotent_witness:
  "wf_logs (uncommitted (exec init
      [SendMsg (Inr (SendBody ''k1'' 9)) None, SendMsg (Inr (SendBody ''k1'' 5)) None]))
   \<and> committed (store_after
        (commit_offsets (store_after (commit_offsets (exec init
           [SendMsg (Inr (SendBody ''k1'' 9)) None, SendMsg (Inr (SendBody ''k1'' 5)) None])
           (Inr (CommitOffsetsBody [(''k1'', 0)])) None))
        (Inr (CommitOffsetsBody [(''k1'', 0)])) None))
     = \<lparr>offsets = [(''k1'', 0)], msgs = [(''k1'', [(0, 9)])]\<rparr>"
proof -
  let ?st = "exec init
      [SendMsg (Inr (SendBody ''k1'' 9)) None, SendMsg (Inr (SendBody ''k1'' 5)) None]"
  have w: "wf_logs (uncommitted ?st)"
    unfolding scenario_store by (simp add: wf_logs_def)
  have once: "committed (store_after (commit_offsets ?st (Inr (CommitOffsetsBody [(''k1'', 0)])) None))
      = \<lparr>offsets = [(''k1'', 0)], msgs = [(''k1'', [(0, 9)])]\<rparr>"
    unfolding scenario_store
    by (simp add: commit_offsets_single commit_key_def commit_entry_def
        ensure_key_def msgs_at_def)
  from commit_idempotent [OF w, of "''k1''" 0 None None] w once show ?thesis
    by simp
qed

section \<open>Commit and the uncommitted table\<close>

text \<open>
  Claim C7. The commit_offsets handler never changes the uncommitted table, neither the
  per-key logs nor the next-offset counters, whatever the request (also one that fails to
  decode) and whatever \<open>node.Reply\<close> returns. So any poll request has the same reply
  body and the same return value right before and right after any commit.
\<close>

theorem commit_offsets_keeps_uncommitted:
  "uncommitted (store_after (commit_offsets st cb cr)) = uncommitted st
   \<and> msgs (uncommitted (store_after (commit_offsets st cb cr))) = msgs (uncommitted st)
   \<and> offsets (uncommitted (store_after (commit_offsets st cb cr))) = offsets (uncommitted st)
   \<and> replied (poll (store_after (commit_offsets st cb cr)) pb pr) = replied (poll st pb pr)
   \<and> returned (poll (store_after (commit_offsets st cb cr)) pb pr) = returned (poll st pb pr)"
  using poll_reads_uncommitted [OF commit_offsets_uncommitted, of st cb cr pb pr]
  by (simp add: commit_offsets_uncommitted)

section \<open>Unknown keys are left out\<close>

text \<open>
  Claim C8. Take any run of the node from the empty store. If the run never appended to
  the key \<open>k\<close>, then a poll whose request names \<open>k\<close> (alone or among other keys) has a
  reply body with no entry for \<open>k\<close>; for the request \<open>{k: s}\<close> the body is the empty map.
  If the run never committed \<open>k\<close>, then list_committed_offsets for \<open>[k]\<close> answers with
  the empty map (in particular not with \<open>{k: 0}\<close>), and whatever keys are listed the
  answer has no entry for \<open>k\<close>. In both cases the handler raises no error of its own: it
  returns what \<open>node.Reply\<close> returns, which is \<open>nil\<close> when the reply is delivered.
\<close>

theorem unknown_key_omitted:
  "(appended k evs = [] \<longrightarrow>
      replied (poll (exec init evs) (Inr (PollBody requested)) reply)
        = Some (PollOkBody (poll_msgs (exec init evs) requested))
      \<and> map_of (poll_msgs (exec init evs) requested) k = None
      \<and> poll_msgs (exec init evs) [(k, s)] = []
      \<and> returned (poll (exec init evs) (Inr (PollBody requested)) reply) = reply)
   \<and> (requested_commits k evs = [] \<longrightarrow>
      replied (list_committed_offsets (exec init evs) (Inr (ListCommittedOffsetsBody [k])) reply)
        = Some (ListCommittedOffsetsOkBody [])
      \<and> map_of (listed_offsets (exec init evs) keys) k = None
      \<and> returned (list_committed_offsets (exec init evs) (Inr (ListCommittedOffsetsBody [k])) reply)
        = reply)"
proof (intro conjI impI)
  assume "appended k evs = []"
  then have u: "map_of (msgs (uncommitted (exec init evs))) k = None"
    by (rule never_appended_absent)
  show "replied (poll (exec init evs) (Inr (PollBody requested)) reply)
          = Some (PollOkBody (poll_msgs (exec init evs) requested))"
    by (rule poll_replied)
  show "map_of (poll_msgs (exec init evs) requested) k = None"
    using u by (rule poll_msgs_unknown)
  show "poll_msgs (exec init evs) [(k, s)] = []"
    using u by (rule poll_msgs_single_unknown)
  show "returned (poll (exec init evs) (Inr (PollBody requested)) reply) = reply"
    by (rule poll_returned)
next
  assume "requested_commits k evs = []"
  then have c: "map_of (offsets (committed (exec init evs))) k = None"
    by (rule never_committed_absent)
  show "replied (list_committed_offsets (exec init evs) (Inr (ListCommittedOffsetsBody [k])) reply)
          = Some (ListCommittedOffsetsOkBody [])"
    using c by (simp add: list_committed_offsets_replied listed_offsets_single)
  show "map_of (listed_offsets (exec init evs) keys) k = None"
    using c by (simp add: map_of_listed_offsets)
  show "returned (list_committed_offsets (exec init evs) (Inr (ListCommittedOffsetsBody [k])) reply)
          = reply"
    by (rule list_committed_offsets_returned)
qed

theorem unknown_key_omitted_witness:
  "appended ''k2''
      [SendMsg (Inr (SendBody ''k1'' 9)) None, SendMsg (Inr (SendBody ''k1'' 5)) None] = []
   \<and> requested_commits ''k2''
      [SendMsg (Inr (SendBody ''k1'' 9)) None, SendMsg (Inr (SendBody ''k1'' 5)) None] = []
   \<and> map_of (poll_msgs (exec init
        [SendMsg (Inr (SendBody ''k1'' 9)) None, SendMsg (Inr (SendBody ''k1'' 5)) None])
        [(''k1'', 0), (''k2'', 0)]) ''k2'' = None
   \<and> poll_msgs (exec init
        [SendMsg (Inr (SendBody ''k1'' 9)) None, SendMsg (Inr (SendBody ''k1'' 5)) None])
        [(''k2'', 0)] = []
   \<and> replied (list_committed_offsets (exec init
        [SendMsg (Inr (SendBody ''k1'' 9)) None, SendMsg (Inr (SendBody ''k1'' 5)) None])
        (Inr (ListCommittedOffsetsBody [''k2''])) None)
      = Some (ListCommittedOffsetsOkBody [])
   \<and> returned (list_committed_offsets (exec init
        [SendMsg (Inr (SendBody ''k1'' 9)) None, SendMsg (Inr (SendBody ''k1'' 5)) None])
        (Inr (ListCommittedOffsetsBody [''k2''])) None) = None"
proof -
  let ?evs = "[SendMsg (Inr (SendBody ''k1'' 9)) None, SendMsg (Inr (SendBody ''k1'' 5)) None]"
  have a: "appended ''k2'' ?evs = []" by simp
  have c: "requested_commits ''k2'' ?evs = []" by simp
  from unknown_key_omitted [of "''k2''" ?evs "[(''k1'', 0), (''k2'', 0)]" None 0 "[]"] a c
  show ?thesis by blast
qed

section \<open>Committing a key that was never appended to\<close>

text \<open>
  Claim C9. When the key \<open>k\<close> is absent from the uncommitted table (nothing was ever
  appended to it), a commit request \<open>{k: c}\<close> is acknowledged with
  \<open>commit_offsets_ok\<close> and changes nothing: the handler skips the key before it
  reaches the write of the marker, so no entry is copied and the marker of \<open>k\<close> is
  not set. A following list_committed_offsets for \<open>[k]\<close> answers as before, and still
  leaves \<open>k\<close> out when \<open>k\<close> had no marker.
\<close>

theorem commit_unknown_key_noop:
  assumes "map_of (msgs (uncommitted st)) k = None"
  shows "store_after (commit_offsets st (Inr (CommitOffsetsBody [(k, c)])) reply) = st
     \<and> replied (commit_offsets st (Inr (CommitOffsetsBody [(k, c)])) reply) = Some CommitOffsetsOkBody
     \<and> returned (commit_offsets st (Inr (CommitOffsetsBody [(k, c)])) reply) = reply
     \<and> listed_offsets (store_after (commit_offsets st (Inr (CommitOffsetsBody [(k, c)])) reply)) [k]
         = listed_offsets st [k]
     \<and> (map_of (offsets (committed st)) k = None \<longrightarrow>
          map_of (offsets (committed (store_after
             (commit_offsets st (Inr (CommitOffsetsBody [(k, c)])) reply)))) k = None
          \<and> listed_offsets (store_after
               (commit_offsets st (Inr (CommitOffsetsBody [(k, c)])) reply)) [k] = [])"
proof -
  have "store_after (commit_offsets st (Inr (CommitOffsetsBody [(k, c)])) reply) = st"
    using assms by (simp add: commit_offsets_single commit_key_unknown)
  then show ?thesis
    by (simp add: commit_offsets_replied commit_offsets_returned listed_offsets_single)
qed

theorem commit_unknown_key_noop_witness:
  "map_of (msgs (uncommitted (exec init
      [SendMsg (Inr (SendBody ''k1'' 9)) None, SendMsg (Inr (SendBody ''k1'' 5)) None]))) ''k2'' = None
   \<and> store_after (commit_offsets (exec init
      [SendMsg (Inr (SendBody ''k1'' 9)) None, SendMsg (Inr (SendBody ''k1'' 5)) None])
      (Inr (CommitOffsetsBody [(''k2'', 7)])) None)
     = exec init [SendMsg (Inr (SendBody ''k1'' 9)) None, SendMsg (Inr (SendBody ''k1'' 5)) None]
   \<and> listed_offsets (store_after (commit_offsets (exec init
      [SendMsg (Inr (SendBody ''k1'' 9)) None, SendMsg (Inr (SendBody ''k1'' 5)) None])
      (Inr (CommitOffsetsBody [(''k2'', 7)])) None)) [''k2''] = []"
proof -
  let ?st = "exec init
      [SendMsg (Inr (SendBody ''k1'' 9)) None, SendMsg (Inr (SendBody ''k1'' 5)) None]"
  have h: "map_of (msgs (uncommitted ?st)) ''k2'' = None"
    unfolding scenario_store by simp
  have c: "map_of (offsets (committed ?st)) ''k2'' = None"
    unfolding scenario_store by simp
  from commit_unknown_key_noop [OF h, of 7 None] c h show ?thesis
    by blast
qed

section \<open>A send whose reply fails\<close>

text \<open>
  Claim C10. In the send handler the message is stored at the assigned offset and the
  reply is handed to \<open>node.Reply\<close> before the counter is incremented. When the reply
  fails with error \<open>e\<close>, the handler returns \<open>e\<close>, the message \<open>m1\<close> is stored at the
  offset the key's counter gave, and the counter still reads the same value (only a
  delivered reply moves it on by one). The next send to the same key is therefore
  assigned the same offset, and its message \<open>m2\<close> replaces \<open>m1\<close> there.
\<close>

theorem send_reply_failure_not_atomic:
  "returned (send st (Inr (SendBody k m1)) (Some e)) = Some e
   \<and> replied (send st (Inr (SendBody k m1)) (Some e)) = Some (SendOkBody (next_offset st k))
   \<and> log_of (uncommitted (store_after (send st (Inr (SendBody k m1)) (Some e)))) k
         (next_offset st k) = Some m1
   \<and> next_offset (store_after (send st (Inr (SendBody k m1)) (Some e))) k = next_offset st k
   \<and> next_offset (store_after (send st (Inr (SendBody k m1)) None)) k
         = wrap64 (next_offset st k + 1)
   \<and> replied (send (store_after (send st (Inr (SendBody k m1)) (Some e)))
         (Inr (SendBody k m2)) reply) = Some (SendOkBody (next_offset st k))
   \<and> log_of (uncommitted (store_after
         (send (store_after (send st (Inr (SendBody k m1)) (Some e)))
            (Inr (SendBody k m2)) reply))) k (next_offset st k) = Some m2"
  by (simp add: send_returned send_replied log_of_send next_offset_send_failed
      next_offset_send_acked)

end
